theory Spec2Isabelle
  imports
    Complex_Main
    "HOL-Library.Monad_Syntax"
    "HOL-Library.Char_ord"
    "HOL-Library.List_Lexorder"
    "HOL-Library.Product_Lexorder"
    "HOL-Library.AList"
begin

section \<open>Problem 4: three ways to sum to n (src/problem4/sum_to_n.ts)\<close>

text \<open>
  The argument is a TypeScript \<open>number\<close>. The three functions are first modelled on the
  integers with exact arithmetic (no rounding, no bound at \<open>2^53\<close>, no limit on the depth
  of the recursion), the reading under which their values are compared; the recursion is
  then modelled again as the runtime executes it.

  \<open>sum_to_n_a\<close>: \<^verbatim>\<open>let sum = 0; for (let i = 1; i <= n; i++) { sum += i; } return sum;\<close>
  The loop is the tail-recursive \<open>sum_loop n i acc\<close>, entered with \<open>i = 1\<close>, \<open>acc = 0\<close>.
\<close>

function sum_loop :: "int \<Rightarrow> int \<Rightarrow> int \<Rightarrow> int" where
  "sum_loop n i acc = (if i \<le> n then sum_loop n (i + 1) (acc + i) else acc)"
  by pat_completeness auto
termination
  by (relation "measure (\<lambda>(n, i, acc). nat (n + 1 - i))") auto

declare sum_loop.simps [simp del]

definition sum_to_n_a :: "int \<Rightarrow> int" where
  "sum_to_n_a n = sum_loop n 1 0"

text \<open>
  \<open>sum_to_n_b\<close>: \<^verbatim>\<open>return (n * (n + 1)) / 2;\<close>
  The division is the division of numbers, not an integer division, so the result is a real.
\<close>

definition sum_to_n_b :: "int \<Rightarrow> real" where
  "sum_to_n_b n = (real_of_int n * (real_of_int n + 1)) / 2"

text \<open>
  \<open>sum_to_n_c\<close>: \<^verbatim>\<open>if (n <= 1) { return n; } return n + sum_to_n_c(n - 1);\<close>
  This is the recursion in exact integer arithmetic, defined without a termination
  argument: a call that never returned would have the value \<open>None\<close>.
\<close>

partial_function (option) sum_to_n_c :: "int \<Rightarrow> int option" where
  "sum_to_n_c n =
     (if n \<le> 1 then Some n
      else do { r \<leftarrow> sum_to_n_c (n - 1); Some (n + r) })"

declare sum_to_n_c.simps [code]

subsection \<open>The recursion on the numbers of the runtime\<close>

text \<open>
  A \<open>number\<close> is a double. An integer of magnitude up to \<open>2^53\<close> is a double; the result of
  an integer operation beyond that is rounded to the nearest integer with a 53-bit
  significand, ties to the even significand (the range limit near \<open>2^1024\<close> is left out).
  \<open>drop_bits m\<close> is the number of low bits of \<open>m\<close> that do not fit the significand.
\<close>

function drop_bits :: "int \<Rightarrow> nat" where
  "drop_bits m = (if m < 2 ^ 53 then 0 else Suc (drop_bits (m div 2)))"
  by pat_completeness auto
termination
  by (relation "measure nat") auto

declare drop_bits.simps [simp del]

definition to_double :: "int \<Rightarrow> int" where
  "to_double x =
     (let m = \<bar>x\<bar>;
          u = 2 ^ drop_bits m;
          q = m div u;
          r = m mod u;
          q1 = (if 2 * r < u then q
                else if u < 2 * r then q + 1
                else if even q then q else q + 1)
      in sgn x * (q1 * u))"

text \<open>
  \<open>sum_to_n_c\<close> as the runtime executes it: the subtraction and the addition round, and
  every call takes a frame of the call stack. \<open>sum_to_n_c_frames d n\<close> is the call on \<open>n\<close>
  when the stack has room for \<open>d\<close> more frames; a call with no frame left raises the
  runtime's \<open>RangeError\<close> (stack overflow), which nothing in the source catches.
\<close>

datatype js_error = RangeError

fun sum_to_n_c_frames :: "nat \<Rightarrow> int \<Rightarrow> js_error + int" where
  "sum_to_n_c_frames 0 n = Inl RangeError"
| "sum_to_n_c_frames (Suc d) n =
     (if n \<le> 1 then Inr n
      else (case sum_to_n_c_frames d (to_double (n - 1)) of
              Inl e \<Rightarrow> Inl e
            | Inr r \<Rightarrow> Inr (to_double (n + r))))"

section \<open>Problem 5: pagination in UserService.getAllUsers (src/problem5/src/services/user.service.ts)\<close>

text \<open>
  \<open>page\<close> and \<open>limit\<close> have the type \<open>number\<close>. The controller sets them with
  \<^verbatim>\<open>if (req.query.limit) { filters.limit = parseInt(req.query.limit as string); }\<close>
  and \<open>parseInt\<close> yields an integer, or \<open>NaN\<close> for a string such as \<open>abc\<close>; the controller
  does not test for it. A \<open>number\<close> here is an integer, an infinity or \<open>NaN\<close>; fractions,
  which \<open>parseInt\<close> never yields, are left out.
\<close>

datatype number = Num int | PosInfinity | NegInfinity | NaN

text \<open>The operator \<open><\<close>: false whenever an operand is \<open>NaN\<close>.\<close>

fun num_less :: "number \<Rightarrow> number \<Rightarrow> bool" where
  "num_less NaN b = False"
| "num_less a NaN = False"
| "num_less (Num a) (Num b) = (a < b)"
| "num_less a NegInfinity = False"
| "num_less NegInfinity b = True"
| "num_less PosInfinity b = False"
| "num_less a PosInfinity = True"

text \<open>\<open>Math.max\<close> and \<open>Math.min\<close>: \<open>NaN\<close> whenever an argument is \<open>NaN\<close>.\<close>

definition Math_max :: "number \<Rightarrow> number \<Rightarrow> number" where
  "Math_max a b = (if a = NaN \<or> b = NaN then NaN else if num_less a b then b else a)"

definition Math_min :: "number \<Rightarrow> number \<Rightarrow> number" where
  "Math_min a b = (if a = NaN \<or> b = NaN then NaN else if num_less a b then a else b)"

text \<open>
  \<open>Math.ceil(totalCount / limit)\<close> for an integer \<open>totalCount\<close>: the quotient of numbers,
  rounded up. Division by zero gives an infinity or \<open>NaN\<close>, division by an infinity gives 0.
\<close>

fun ceil_quotient :: "int \<Rightarrow> number \<Rightarrow> number" where
  "ceil_quotient a NaN = NaN"
| "ceil_quotient a PosInfinity = Num 0"
| "ceil_quotient a NegInfinity = Num 0"
| "ceil_quotient a (Num b) =
     (if b = 0 then (if 0 < a then PosInfinity else if a < 0 then NegInfinity else NaN)
      else Num \<lceil>real_of_int a / real_of_int b\<rceil>)"

text \<open>
  Absent fields (\<open>undefined\<close>) are \<open>None\<close>. Dates are epoch integers.
\<close>

record User =
  user_id :: int
  user_name :: string
  user_email :: string
  user_age :: "int option"
  user_role :: string
  user_status :: string
  deleted_at :: "int option"
  created_at :: int
  updated_at :: int

record UserFilters =
  role :: "string option"
  status :: "string option"
  minAge :: "int option"
  maxAge :: "int option"
  includeDeleted :: "bool option"
  sortBy :: "string option"
  sortOrder :: "string option"
  page :: "number option"
  limit :: "number option"

record PaginationMeta =
  currentPage :: number
  pageSize :: number
  totalCount :: int
  totalPages :: number
  hasNextPage :: bool
  hasPreviousPage :: bool

record PaginatedResponse =
  success :: bool
  data :: "User list"
  pagination :: PaginationMeta
  filters :: "UserFilters option"

datatype GetAllUsersResult = UserArray "User list" | Paginated PaginatedResponse

text \<open>
  \<^verbatim>\<open>const { page: _, limit: __, ...responseFilters } = sanitizedFilters;\<close> and
  \<^verbatim>\<open>Object.keys(responseFilters).length > 0 ? responseFilters : undefined\<close>
\<close>

definition responseFilters :: "UserFilters \<Rightarrow> UserFilters option" where
  "responseFilters f =
     (let rf = f\<lparr>page := None, limit := None\<rparr>
      in if role f \<noteq> None \<or> status f \<noteq> None \<or> minAge f \<noteq> None \<or> maxAge f \<noteq> None
            \<or> includeDeleted f \<noteq> None \<or> sortBy f \<noteq> None \<or> sortOrder f \<noteq> None
         then Some rf else None)"

text \<open>
  \<open>UserModel.count\<close> and \<open>UserModel.findAll\<close> query the database; they are parameters
  \<open>count\<close> and \<open>findAll\<close> of the model; \<open>count\<close> returns the integer of \<open>COUNT(*)\<close>.
  \<^verbatim>\<open>
  if (filters?.page !== undefined && filters?.limit !== undefined) {
    const page = Math.max(1, filters.page); // Ensure page is at least 1
    const limit = Math.max(1, Math.min(100, filters.limit)); // Limit between 1-100
    const sanitizedFilters = { ...filters, page, limit };
    const [totalCount, users] = await Promise.all([
      UserModel.count(sanitizedFilters), UserModel.findAll(sanitizedFilters) ]);
    const totalPages = Math.ceil(totalCount / limit);
    const pagination: PaginationMeta = { currentPage: page, pageSize: limit, totalCount,
      totalPages, hasNextPage: page < totalPages, hasPreviousPage: page > 1 };
    ...
    return { success: true, data: users, pagination, filters: ... };
  }
  return await UserModel.findAll(filters);
  \<close>
\<close>

definition getAllUsers ::
  "(UserFilters option \<Rightarrow> int) \<Rightarrow> (UserFilters option \<Rightarrow> User list) \<Rightarrow>
   UserFilters option \<Rightarrow> GetAllUsersResult" where
  "getAllUsers count findAll fs =
     (case fs of
        None \<Rightarrow> UserArray (findAll None)
      | Some f \<Rightarrow>
          (case (page f, limit f) of
             (Some p, Some l) \<Rightarrow>
               (let pg = Math_max (Num 1) p;
                    lim = Math_max (Num 1) (Math_min (Num 100) l);
                    sanitizedFilters = f\<lparr>page := Some pg, limit := Some lim\<rparr>;
                    total = count (Some sanitizedFilters);
                    users = findAll (Some sanitizedFilters);
                    pages = ceil_quotient total lim
                in Paginated
                     \<lparr>success = True,
                      data = users,
                      pagination =
                        \<lparr>currentPage = pg, pageSize = lim, totalCount = total,
                         totalPages = pages, hasNextPage = num_less pg pages,
                         hasPreviousPage = num_less (Num 1) pg\<rparr>,
                      filters = responseFilters sanitizedFilters\<rparr>)
           | _ \<Rightarrow> UserArray (findAll fs)))"

section \<open>Problem 6: the scoreboard (README of problem 6)\<close>

subsection \<open>Rate limiting on a Redis counter\<close>

text \<open>
  The README's implementation of the per-user limit:
  \<^verbatim>\<open>
  const key = `rate_limit:${userId}`;
  const count = await redis.incr(key);
  if (count === 1) { await redis.expire(key, 60); }
  if (count > 10) { throw new Error("Rate limit exceeded"); }
  \<close>
  Redis is a map from keys to a counter with an optional expiry instant. Time is in
  milliseconds. A key is gone once its expiry instant has passed (Redis tests
  \<open>now > when\<close>); \<open>INCR\<close> of a missing key stores 1 and keeps the expiry of a present one;
  \<open>EXPIRE key secs\<close> sets the expiry of a present key to \<open>now + 1000 * secs\<close>.
\<close>

record redis_entry =
  counter :: int
  expireAt :: "int option"

type_synonym redis = "string \<rightharpoonup> redis_entry"

definition lookup :: "redis \<Rightarrow> string \<Rightarrow> int \<Rightarrow> redis_entry option" where
  "lookup r k now =
     (case r k of
        None \<Rightarrow> None
      | Some e \<Rightarrow>
          (case expireAt e of
             None \<Rightarrow> Some e
           | Some w \<Rightarrow> if now > w then None else Some e))"

definition redis_incr :: "string \<Rightarrow> int \<Rightarrow> redis \<Rightarrow> int \<times> redis" where
  "redis_incr k now r =
     (case lookup r k now of
        None \<Rightarrow> (1, r(k \<mapsto> \<lparr>counter = 1, expireAt = None\<rparr>))
      | Some e \<Rightarrow> (counter e + 1, r(k \<mapsto> e\<lparr>counter := counter e + 1\<rparr>)))"

definition redis_expire :: "string \<Rightarrow> int \<Rightarrow> int \<Rightarrow> redis \<Rightarrow> redis" where
  "redis_expire k secs now r =
     (case lookup r k now of
        None \<Rightarrow> r
      | Some e \<Rightarrow> r(k \<mapsto> e\<lparr>expireAt := Some (now + 1000 * secs)\<rparr>))"

datatype rate_error = RateLimitExceeded

definition rate_key :: "string \<Rightarrow> string" where
  "rate_key userId = ''rate_limit:'' @ userId"

definition rate_limit :: "string \<Rightarrow> int \<Rightarrow> redis \<Rightarrow> (rate_error + unit) \<times> redis" where
  "rate_limit userId now r =
     (let key = rate_key userId;
          (count, r1) = redis_incr key now r;
          r2 = (if count = 1 then redis_expire key 60 now r1 else r1)
      in if count > 10 then (Inl RateLimitExceeded, r2) else (Inr (), r2))"

text \<open>The commands of one user, submitted at the instants \<open>ts\<close> in this order.\<close>

fun rate_limit_all :: "string \<Rightarrow> int list \<Rightarrow> redis \<Rightarrow> (rate_error + unit) list \<times> redis" where
  "rate_limit_all userId [] r = ([], r)"
| "rate_limit_all userId (t # ts) r =
     (let (res, r1) = rate_limit userId t r;
          (rs, r2) = rate_limit_all userId ts r1
      in (res # rs, r2))"

subsection \<open>Ranking order\<close>

text \<open>
  A leaderboard row is a pair of a user id and a score; the rank of a row is its position
  in the list, counted from 1 (the README's \<open>LeaderboardEntry\<close> also carries
  \<open>username\<close>, \<open>avatar\<close> and \<open>lastUpdated\<close>, which take no part in the ordering).
\<close>

text \<open>
  Modelled from the spec: the ordering of the Ranking Store, which the README leaves to
  a database index \<open>users(score DESC)\<close> and a Redis sorted set. The spec (section 4.3)
  orders by score descending and, for equal scores, by participant id ascending.
\<close>

definition ranked :: "(string \<times> int) list \<Rightarrow> (string \<times> int) list" where
  "ranked xs = sort_key (\<lambda>(u, s). (- s, u)) xs"

text \<open>
  \<open>outranks a b\<close>: row \<open>a\<close> comes strictly before row \<open>b\<close> in the order the claims
  state (higher score, or equal score and smaller id).
\<close>

definition outranks :: "string \<times> int \<Rightarrow> string \<times> int \<Rightarrow> bool" where
  "outranks a b = (snd a > snd b \<or> (snd a = snd b \<and> fst a < fst b))"

text \<open>The 1-based position of a user in the ranking.\<close>

definition position :: "string \<Rightarrow> (string \<times> int) list \<Rightarrow> nat" where
  "position u xs = Suc (length (takeWhile (\<lambda>e. fst e \<noteq> u) (ranked xs)))"

text \<open>
  Modelled from the spec: the boundary score of the glossary, the score of the Kth-ranked
  participant; there is none when there are fewer than K participants.
\<close>

definition boundary :: "nat \<Rightarrow> (string \<times> int) list \<Rightarrow> int option" where
  "boundary k xs =
     (if 0 < k \<and> k \<le> length xs then Some (snd (ranked xs ! (k - 1))) else None)"

subsection \<open>The update logic of the README\<close>

text \<open>
  \<^verbatim>\<open>
  async function updateScoreboard(userId, newScore) {
    await db.updateUserScore(userId, newScore);
    await redis.del("leaderboard:global");
    const currentTop10 = await getTop10();
    const wasInTop10 = previousTop10.some((u) => u.userId === userId);
    const isInTop10 = currentTop10.some((u) => u.userId === userId);
    if (wasInTop10 || isInTop10) {
      io.emit("scoreboard_updated", { leaderboard: currentTop10, timestamp: new Date() });
    }
    const newRank = await getUserRank(userId);
    io.to(userId).emit("user_rank_changed",
      { userId, oldRank: previousRank, newRank, score: newScore });
  }
  \<close>
  The database is the list of (user id, score) rows. \<open>previousTop10\<close> and \<open>previousRank\<close>
  are free in the README's function and are parameters here, as is the clock reading
  \<open>now\<close> of \<open>new Date()\<close>. Everything emitted is appended to \<open>sent\<close>;
  \<open>redis.del\<close> empties \<open>cache\<close>.
\<close>

datatype event =
    ScoreboardUpdated (leaderboard: "(string \<times> int) list") (timestamp: int)
  | UserRankChanged string "nat option" "nat option" int

record system =
  db :: "(string \<times> int) list"
  cache :: "(string \<times> int) list option"
  sent :: "event list"

text \<open>
  Modelled from the spec: \<open>db.updateUserScore\<close>, \<open>getTop10\<close> and \<open>getUserRank\<close>, which
  the README calls and does not define. They are the Ranking Store's update of one score,
  its \<open>topK(10)\<close> and its \<open>rankOf\<close>.
\<close>

definition updateUserScore :: "string \<Rightarrow> int \<Rightarrow> (string \<times> int) list \<Rightarrow> (string \<times> int) list" where
  "updateUserScore userId newScore rows = AList.update userId newScore rows"

definition getTop10 :: "(string \<times> int) list \<Rightarrow> (string \<times> int) list" where
  "getTop10 rows = take 10 (ranked rows)"

definition getUserRank :: "(string \<times> int) list \<Rightarrow> string \<Rightarrow> nat option" where
  "getUserRank rows userId =
     (if userId \<in> fst ` set rows then Some (position userId rows) else None)"

definition updateScoreboard ::
  "(string \<times> int) list \<Rightarrow> nat option \<Rightarrow> int \<Rightarrow> string \<Rightarrow> int \<Rightarrow> system \<Rightarrow> system" where
  "updateScoreboard previousTop10 previousRank now userId newScore s =
     (let db1 = updateUserScore userId newScore (db s);
          currentTop10 = getTop10 db1;
          wasInTop10 = list_ex (\<lambda>u. fst u = userId) previousTop10;
          isInTop10 = list_ex (\<lambda>u. fst u = userId) currentTop10;
          sent1 = (if wasInTop10 \<or> isInTop10
                   then sent s @ [ScoreboardUpdated currentTop10 now] else sent s);
          newRank = getUserRank db1 userId
      in \<lparr>db = db1, cache = None,
          sent = sent1 @ [UserRankChanged userId previousRank newRank newScore]\<rparr>)"

text \<open>
  A run of updates \<open>(userId, newScore, now)\<close>: before each one, \<open>previousTop10\<close> and
  \<open>previousRank\<close> are read from the database as it stands.
\<close>

fun updates :: "(string \<times> int \<times> int) list \<Rightarrow> system \<Rightarrow> system" where
  "updates [] s = s"
| "updates ((userId, newScore, now) # rest) s =
     updates rest
       (updateScoreboard (getTop10 (db s)) (getUserRank (db s) userId) now userId newScore s)"

text \<open>The \<open>scoreboard_updated\<close> broadcasts among the emitted events, in order.\<close>

fun published :: "event list \<Rightarrow> ((string \<times> int) list \<times> int) list" where
  "published [] = []"
| "published (ScoreboardUpdated l t # es) = (l, t) # published es"
| "published (UserRankChanged u a b n # es) = published es"

section \<open>The leaderboard engine of the specification\<close>

subsection \<open>Idempotency guard and ranking store\<close>

text \<open>
  Modelled from the spec: the Idempotency Guard's \<open>admit\<close> and the Ranking Store's
  \<open>applyDelta\<close>, \<open>topK\<close> and \<open>rankOf\<close> (sections 3, 4.1, 4.3 and 6); the repository has no
  code for them. A participant has a score, the sequence number of the last applied
  command and the time of the last update; a participant is created by the first accepted
  delta for an unseen id.
\<close>

record participant =
  score :: int
  lastSeq :: int
  updatedAt :: int

type_synonym store = "(string \<times> participant) list"

record command =
  participantId :: string
  delta :: int
  commandId :: int
  submittedAt :: int

datatype outcome = Applied (newScore: int) (newRank: nat) | RejectedDuplicate

definition scores :: "store \<Rightarrow> (string \<times> int) list" where
  "scores st = map (\<lambda>(p, r). (p, score r)) st"

text \<open>
  Modelled from the spec: the guard's check (section 4.1). It accepts iff
  \<open>command.seq > participant.lastSeq\<close>; a new participant is always accepted.
\<close>

definition admit :: "store \<Rightarrow> command \<Rightarrow> bool" where
  "admit st c =
     (case map_of st (participantId c) of
        None \<Rightarrow> True
      | Some p \<Rightarrow> lastSeq p < commandId c)"

text \<open>
  Modelled from the spec: the store's single update entry point (section 4.3). It checks
  the sequence, applies the delta (clamped at zero), records the sequence and the time, all
  or nothing, and reports the new score and rank. The other outcomes of section 6
  (\<open>RejectedRateLimited\<close>, \<open>RejectedInvalid\<close>) arise outside this critical section.
\<close>

definition applyDelta :: "command \<Rightarrow> store \<Rightarrow> outcome \<times> store" where
  "applyDelta c st =
     (if admit st c then
        (let old = (case map_of st (participantId c) of None \<Rightarrow> 0 | Some p \<Rightarrow> score p);
             new = max 0 (old + delta c);
             st1 = AList.update (participantId c)
                     \<lparr>score = new, lastSeq = commandId c, updatedAt = submittedAt c\<rparr> st
         in (Applied new (position (participantId c) (scores st1)), st1))
      else (RejectedDuplicate, st))"

text \<open>
  Modelled from the spec: \<open>topK(k)\<close>, the first \<open>k\<close> rows of the ranking, and
  \<open>rankOf\<close>, the position of a participant or \<open>NotFound\<close> (section 4.3).
\<close>

definition topK :: "nat \<Rightarrow> store \<Rightarrow> (string \<times> int) list" where
  "topK k st = take k (ranked (scores st))"

definition rankOf :: "store \<Rightarrow> string \<Rightarrow> nat option" where
  "rankOf st p = (if p \<in> fst ` set st then Some (position p (scores st)) else None)"

text \<open>A sequence of commands, applied in order; the outcomes are returned in order.\<close>

fun run :: "command list \<Rightarrow> store \<Rightarrow> outcome list \<times> store" where
  "run [] st = ([], st)"
| "run (c # cs) st =
     (let (r, st1) = applyDelta c st;
          (rs, st2) = run cs st1
      in (r # rs, st2))"

text \<open>How many occurrences of command \<open>k\<close> of participant \<open>p\<close> were applied in a run.\<close>

definition times_applied :: "string \<Rightarrow> int \<Rightarrow> command list \<Rightarrow> store \<Rightarrow> nat" where
  "times_applied p k cs st =
     length (filter (\<lambda>(c, r). participantId c = p \<and> commandId c = k \<and> r \<noteq> RejectedDuplicate)
               (zip cs (fst (run cs st))))"

text \<open>The store has recorded, for participant \<open>p\<close>, a sequence number at or above \<open>k\<close>.\<close>

definition recorded :: "store \<Rightarrow> string \<Rightarrow> int \<Rightarrow> bool" where
  "recorded st p k = (case map_of st p of None \<Rightarrow> False | Some r \<Rightarrow> k \<le> lastSeq r)"

subsection \<open>Snapshot cache\<close>

text \<open>
  Modelled from the spec: the state of the Snapshot Cache (sections 3 and 4.4); the README
  has only the sequence diagram of the cached read and the
  \<open>redis.del("leaderboard:global")\<close> of the update. The cache holds at most one snapshot
  and the last generation it stamped; \<open>K\<close> and the TTL come from the configuration.
\<close>

record snapshot =
  entries :: "(string \<times> int) list"
  generation :: nat
  createdAt :: int

record snapshot_cache =
  cached :: "snapshot option"
  lastGeneration :: nat

record config =
  topKSize :: nat
  snapshotTTL :: int

text \<open>
  Modelled from the spec: the synchronous rebuild from \<open>RankingStore.topK(K)\<close>, stamped
  with the next generation and the current time; \<open>get\<close>, which serves the cached snapshot
  while \<open>now - createdAt < TTL\<close> and rebuilds otherwise; \<open>invalidate\<close>, which drops the
  cached snapshot.
\<close>

definition rebuild :: "config \<Rightarrow> store \<Rightarrow> int \<Rightarrow> snapshot_cache \<Rightarrow> snapshot \<times> snapshot_cache" where
  "rebuild cfg st now c =
     (let s = \<lparr>entries = topK (topKSize cfg) st,
               generation = Suc (lastGeneration c),
               createdAt = now\<rparr>
      in (s, \<lparr>cached = Some s, lastGeneration = Suc (lastGeneration c)\<rparr>))"

definition get :: "config \<Rightarrow> store \<Rightarrow> int \<Rightarrow> snapshot_cache \<Rightarrow> snapshot \<times> snapshot_cache" where
  "get cfg st now c =
     (case cached c of
        None \<Rightarrow> rebuild cfg st now c
      | Some s \<Rightarrow>
          if now - createdAt s < snapshotTTL cfg then (s, c) else rebuild cfg st now c)"

definition invalidate :: "snapshot_cache \<Rightarrow> snapshot_cache" where
  "invalidate c = c\<lparr>cached := None\<rparr>"

section \<open>Example inputs\<close>

text \<open>Twelve users; the tenth score, the boundary of the top 10, is 30.\<close>

definition example_rows :: "(string \<times> int) list" where
  "example_rows =
     [(''u01'', 120), (''u02'', 110), (''u03'', 100), (''u04'', 90), (''u05'', 80), (''u06'', 70),
      (''u07'', 60), (''u08'', 50), (''u09'', 40), (''u10'', 30), (''u11'', 20), (''u12'', 10)]"

definition example_system :: system where
  "example_system = \<lparr>db = example_rows, cache = None, sent = []\<rparr>"

text \<open>A scoreboard with a single user.\<close>

definition small_system :: system where
  "small_system = \<lparr>db = [(''a'', 1)], cache = None, sent = []\<rparr>"

text \<open>A command with delta \<open>d\<close> and command id \<open>k\<close> for participant \<open>p\<close>.\<close>

definition cmd :: "string \<Rightarrow> int \<Rightarrow> int \<Rightarrow> command" where
  "cmd p d k = \<lparr>participantId = p, delta = d, commandId = k, submittedAt = 0\<rparr>"

text \<open>
  The scenario of the spec, with a tie added: A 100, B 90, C 80, D 90, then C gains 15.
\<close>

definition example_commands :: "command list" where
  "example_commands =
     [cmd ''A'' 100 1, cmd ''B'' 90 1, cmd ''C'' 80 1, cmd ''D'' 90 1, cmd ''C'' 15 2]"

text \<open>K = 2 and a TTL of 5 time units; a cache holding generation 7, created at time 100.\<close>

definition example_config :: config where
  "example_config = \<lparr>topKSize = 2, snapshotTTL = 5\<rparr>"

definition example_cache :: snapshot_cache where
  "example_cache =
     \<lparr>cached = Some \<lparr>entries = [(''A'', 100), (''B'', 90)], generation = 7, createdAt = 100\<rparr>,
      lastGeneration = 7\<rparr>"

text \<open>A request for page 0 with limit 1000, as the controller would build it.\<close>

definition example_filters :: UserFilters where
  "example_filters =
     \<lparr>role = Some ''admin'', status = None, minAge = None, maxAge = None,
      includeDeleted = None, sortBy = None, sortOrder = None,
      page = Some (Num 0), limit = Some (Num 1000)\<rparr>"

text \<open>The filters that the controller builds for \<open>GET /users?page=1&limit=abc\<close>.\<close>

definition nan_filters :: UserFilters where
  "nan_filters =
     \<lparr>role = None, status = None, minAge = None, maxAge = None,
      includeDeleted = None, sortBy = None, sortOrder = None,
      page = Some (Num 1), limit = Some NaN\<rparr>"

section \<open>Problem 4: results\<close>

lemma sum_loop_done: "n < i \<Longrightarrow> sum_loop n i acc = acc"
  by (subst sum_loop.simps) simp

lemma sum_loop_closed:
  "i \<le> n + 1 \<Longrightarrow> 2 * sum_loop n i acc = 2 * acc + n * (n + 1) - (i - 1) * i"
proof (induction n i acc rule: sum_loop.induct)
  case (1 n i acc)
  show ?case
  proof (cases "i \<le> n")
    case True
    then have "2 * sum_loop n (i + 1) (acc + i) = 2 * (acc + i) + n * (n + 1) - (i + 1 - 1) * (i + 1)"
      using "1.IH" by simp
    moreover have "sum_loop n i acc = sum_loop n (i + 1) (acc + i)"
      using True by (subst sum_loop.simps) simp
    ultimately show ?thesis by (simp add: algebra_simps)
  next
    case False
    with "1.prems" have "i = n + 1" by simp
    then show ?thesis by (simp add: sum_loop_done algebra_simps)
  qed
qed

lemma sum_to_n_a_twice: "0 \<le> n \<Longrightarrow> 2 * sum_to_n_a n = n * (n + 1)"
  unfolding sum_to_n_a_def using sum_loop_closed [of 1 n 0] by simp

lemma sum_to_n_a_negative: "n < 0 \<Longrightarrow> sum_to_n_a n = 0"
  unfolding sum_to_n_a_def by (simp add: sum_loop_done)

lemma sum_to_n_c_base: "n \<le> 1 \<Longrightarrow> sum_to_n_c n = Some n"
  by (subst sum_to_n_c.simps) simp

lemma sum_to_n_c_step: "1 < n \<Longrightarrow> sum_to_n_c n = do { r \<leftarrow> sum_to_n_c (n - 1); Some (n + r) }"
  by (subst sum_to_n_c.simps) simp

lemma sum_to_n_c_closed: "1 \<le> n \<Longrightarrow> \<exists>r. sum_to_n_c n = Some r \<and> 2 * r = n * (n + 1)"
proof (induction n rule: int_ge_induct)
  case base
  show ?case by (simp add: sum_to_n_c_base)
next
  case (step k)
  then obtain r where r: "sum_to_n_c k = Some r" "2 * r = k * (k + 1)" by blast
  have "sum_to_n_c (k + 1) = Some (k + 1 + r)"
    using step.hyps r(1) by (simp add: sum_to_n_c_step)
  moreover have "2 * (k + 1 + r) = (k + 1) * (k + 1 + 1)"
    using r(2) by (simp add: algebra_simps)
  ultimately show ?case by blast
qed

lemma half_of_twice: "2 * r = n * (n + 1) \<Longrightarrow> r = n * (n + 1) div (2::int)"
  by presburger

text \<open>
  C8. For every integer \<open>n \<ge> 0\<close> the three implementations return the same number, which
  is \<open>n (n + 1) / 2\<close> (the division is exact). For \<open>n < 0\<close> the loop returns \<open>0\<close>, the
  formula returns \<open>n (n + 1) / 2\<close> and the recursion returns \<open>n\<close>, so they do not agree
  there.
\<close>

theorem sum_to_n_agree:
  "(0 \<le> n \<longrightarrow>
      sum_to_n_a n = n * (n + 1) div 2
    \<and> 2 * sum_to_n_a n = n * (n + 1)
    \<and> sum_to_n_b n = real_of_int (sum_to_n_a n)
    \<and> sum_to_n_c n = Some (sum_to_n_a n))
   \<and> (n < 0 \<longrightarrow>
      sum_to_n_a n = 0
    \<and> sum_to_n_b n = real_of_int (n * (n + 1)) / 2
    \<and> sum_to_n_c n = Some n)"
proof (intro conjI impI)
  assume n: "0 \<le> n"
  show a2: "2 * sum_to_n_a n = n * (n + 1)" by (rule sum_to_n_a_twice [OF n])
  then show "sum_to_n_a n = n * (n + 1) div 2" by (rule half_of_twice)
  have "2 * real_of_int (sum_to_n_a n) = real_of_int n * (real_of_int n + 1)"
    using a2 by (metis of_int_mult of_int_add of_int_1 of_int_numeral)
  then show "sum_to_n_b n = real_of_int (sum_to_n_a n)"
    unfolding sum_to_n_b_def by simp
  show "sum_to_n_c n = Some (sum_to_n_a n)"
  proof (cases "n = 0")
    case True
    then show ?thesis using a2 by (simp add: sum_to_n_c_base)
  next
    case False
    with n have "1 \<le> n" by simp
    then obtain r where "sum_to_n_c n = Some r" "2 * r = n * (n + 1)"
      using sum_to_n_c_closed by blast
    with a2 show ?thesis by simp
  qed
next
  assume n: "n < 0"
  show "sum_to_n_a n = 0" by (rule sum_to_n_a_negative [OF n])
  show "sum_to_n_b n = real_of_int (n * (n + 1)) / 2"
    unfolding sum_to_n_b_def by simp
  show "sum_to_n_c n = Some n" using n by (simp add: sum_to_n_c_base)
qed

theorem sum_to_n_agree_witness:
  "sum_to_n_a 5 = 15 \<and> sum_to_n_b 5 = 15 \<and> sum_to_n_c 5 = Some 15
   \<and> sum_to_n_a (- 3) = 0 \<and> sum_to_n_b (- 3) = 3 \<and> sum_to_n_c (- 3) = Some (- 3)"
  using sum_to_n_agree [of 5] sum_to_n_agree [of "- 3"] by simp

subsection \<open>The recursion on the numbers of the runtime\<close>

lemma to_double_exact: "\<bar>x\<bar> < 2 ^ 53 \<Longrightarrow> to_double x = x"
proof -
  assume a: "\<bar>x\<bar> < 2 ^ 53"
  then have "drop_bits \<bar>x\<bar> = 0" by (subst drop_bits.simps) simp
  then show ?thesis by (simp add: to_double_def Let_def mult_sgn_abs)
qed

lemma frames_base: "n \<le> 1 \<Longrightarrow> sum_to_n_c_frames (Suc d) n = Inr n"
  by simp

lemma frames_returns:
  "1 \<le> n \<Longrightarrow> n \<le> 2 ^ 53 \<Longrightarrow> n \<le> int d \<Longrightarrow> \<exists>v. sum_to_n_c_frames d n = Inr v"
proof (induction d arbitrary: n)
  case 0
  then show ?case by simp
next
  case (Suc d)
  show ?case
  proof (cases "n \<le> 1")
    case True
    then show ?thesis by simp
  next
    case False
    then have dec: "to_double (n - 1) = n - 1"
      using Suc.prems by (intro to_double_exact) simp
    have "\<exists>v. sum_to_n_c_frames d (n - 1) = Inr v"
      using False Suc.prems by (intro Suc.IH) simp_all
    then show ?thesis using False by (auto simp: dec)
  qed
qed

lemma frames_overflow:
  "1 \<le> n \<Longrightarrow> n \<le> 2 ^ 53 \<Longrightarrow> int d < n \<Longrightarrow> sum_to_n_c_frames d n = Inl RangeError"
proof (induction d arbitrary: n)
  case 0
  then show ?case by simp
next
  case (Suc d)
  then have n: "1 < n" by simp
  then have dec: "to_double (n - 1) = n - 1"
    using Suc.prems by (intro to_double_exact) simp
  have "sum_to_n_c_frames d (n - 1) = Inl RangeError"
    using n Suc.prems by (intro Suc.IH) simp_all
  then show ?case using n by (simp add: dec)
qed

lemma frames_stuck:
  "1 < n \<Longrightarrow> to_double (n - 1) = n \<Longrightarrow> sum_to_n_c_frames d n = Inl RangeError"
  by (induction d) simp_all

lemma frames_value:
  "1 \<le> n \<Longrightarrow> n * (n + 1) div 2 < 2 ^ 53 \<Longrightarrow> n \<le> int d
     \<Longrightarrow> sum_to_n_c_frames d n = Inr (n * (n + 1) div 2)"
proof (induction d arbitrary: n)
  case 0
  then show ?case by simp
next
  case (Suc d)
  show ?case
  proof (cases "n \<le> 1")
    case True
    with Suc.prems have "n = 1" by simp
    then show ?thesis by simp
  next
    case False
    have two: "2 * (n * (n + 1) div 2) = n * (n + 1)" "2 * ((n - 1) * n div 2) = (n - 1) * n"
      by simp_all
    have mono: "(n - 1) * n \<le> n * (n + 1)" using False by (simp add: algebra_simps)
    have small: "(n - 1) * (n - 1 + 1) div 2 < 2 ^ 53"
      using Suc.prems(2) mono two by simp
    have nn: "n \<le> n * (n + 1) div 2"
    proof -
      have "2 * n \<le> n * (n + 1)" using False by (simp add: algebra_simps mult_le_cancel_left)
      then show ?thesis using two(1) by linarith
    qed
    have dec: "to_double (n - 1) = n - 1"
      using False nn Suc.prems(2) by (intro to_double_exact) simp
    have ih: "sum_to_n_c_frames d (n - 1) = Inr ((n - 1) * (n - 1 + 1) div 2)"
      using False Suc.prems small by (intro Suc.IH) simp_all
    have sum: "n + (n - 1) * n div 2 = n * (n + 1) div 2"
    proof -
      have "2 * (n + (n - 1) * n div 2) = n * (n + 1)"
        using two(2) by (simp add: algebra_simps)
      then show ?thesis by (rule half_of_twice)
    qed
    have "to_double (n * (n + 1) div 2) = n * (n + 1) div 2"
      using Suc.prems(2) nn False by (intro to_double_exact) simp
    then show ?thesis using False ih by (simp add: dec sum)
  qed
qed

text \<open>
  C9 (as amended). \<open>sum_to_n_c\<close> returns \<open>n\<close> at once for every \<open>n \<le> 1\<close>. For an integer
  \<open>1 < n \<le> 2^53\<close> each recursive call is on exactly \<open>n - 1\<close>, and the call returns a
  value iff the call stack has room for \<open>n\<close> nested frames; with fewer it ends in the
  runtime's \<open>RangeError\<close>, the stack overflow of which the source's comment warns. Where
  the sum stays below \<open>2^53\<close> the value returned is \<open>n (n + 1) / 2\<close>.
\<close>

theorem sum_to_n_c_frames_returns:
  "(n \<le> 1 \<longrightarrow> sum_to_n_c_frames (Suc d) n = Inr n)
   \<and> (1 < n \<and> n \<le> 2 ^ 53 \<longrightarrow>
        to_double (n - 1) = n - 1
      \<and> ((\<exists>v. sum_to_n_c_frames d n = Inr v) \<longleftrightarrow> n \<le> int d)
      \<and> (int d < n \<longrightarrow> sum_to_n_c_frames d n = Inl RangeError))
   \<and> (1 < n \<and> n * (n + 1) div 2 < 2 ^ 53 \<and> n \<le> int d \<longrightarrow>
        sum_to_n_c_frames d n = Inr (n * (n + 1) div 2))"
proof (intro conjI impI)
  assume "n \<le> 1"
  then show "sum_to_n_c_frames (Suc d) n = Inr n" by simp
next
  assume a: "1 < n \<and> n \<le> 2 ^ 53"
  then show "to_double (n - 1) = n - 1" by (intro to_double_exact) simp
  show "(\<exists>v. sum_to_n_c_frames d n = Inr v) \<longleftrightarrow> n \<le> int d"
  proof
    assume "\<exists>v. sum_to_n_c_frames d n = Inr v"
    then show "n \<le> int d" using a frames_overflow [of n d] by (cases "n \<le> int d") auto
  next
    assume "n \<le> int d"
    then show "\<exists>v. sum_to_n_c_frames d n = Inr v" using a by (intro frames_returns) simp_all
  qed
next
  assume "1 < n \<and> n \<le> 2 ^ 53" and "int d < n"
  then show "sum_to_n_c_frames d n = Inl RangeError" by (intro frames_overflow) simp_all
next
  assume "1 < n \<and> n * (n + 1) div 2 < 2 ^ 53 \<and> n \<le> int d"
  then show "sum_to_n_c_frames d n = Inr (n * (n + 1) div 2)" by (intro frames_value) simp_all
qed

theorem sum_to_n_c_frames_returns_witness:
  "sum_to_n_c_frames 1 (- 3) = Inr (- 3)
   \<and> to_double (5 - 1) = 4
   \<and> sum_to_n_c_frames 5 5 = Inr 15
   \<and> sum_to_n_c_frames 4 5 = Inl RangeError"
proof -
  have "sum_to_n_c_frames (Suc 0) (- 3) = Inr (- 3)"
    using sum_to_n_c_frames_returns [of "- 3" 0] by simp
  moreover have "to_double (5 - 1) = 5 - 1"
    using sum_to_n_c_frames_returns [of 5 5] by simp
  moreover have "sum_to_n_c_frames 5 5 = Inr (5 * (5 + 1) div 2)"
    using sum_to_n_c_frames_returns [of 5 5] by simp
  moreover have "sum_to_n_c_frames 4 5 = Inl RangeError"
    using sum_to_n_c_frames_returns [of 5 4] by simp
  ultimately show ?thesis by simp
qed

text \<open>
  C9 as stated fails. At \<open>n = 2^53 + 4\<close> the subtraction \<open>n - 1\<close> rounds back to \<open>n\<close>, so the
  call does not decrease its argument and no stack is deep enough (\<open>frames_stuck\<close>); and
  with room for 10000 frames the call on 20000, whose argument does decrease, ends in
  \<open>RangeError\<close> instead of returning.
\<close>

theorem sum_to_n_c_overflow_counterexample:
  "to_double (9007199254740996 - 1) = 9007199254740996
   \<and> sum_to_n_c_frames 10000 9007199254740996 = Inl RangeError
   \<and> sum_to_n_c_frames 10000 20000 = Inl RangeError"
proof -
  have "drop_bits 9007199254740995 = 1"
    by (simp add: drop_bits.simps)
  then have r: "to_double (9007199254740996 - 1) = 9007199254740996"
    by (simp add: to_double_def Let_def)
  have "sum_to_n_c_frames 10000 9007199254740996 = Inl RangeError"
    by (rule frames_stuck [OF _ r]) simp
  moreover have "sum_to_n_c_frames 10000 20000 = Inl RangeError"
    by (rule frames_overflow) simp_all
  ultimately show ?thesis using r by blast
qed

section \<open>Problem 5: results\<close>

lemma Math_max_Num: "Math_max (Num a) (Num b) = Num (max a b)"
  by (simp add: Math_max_def max_def)

lemma Math_min_Num: "Math_min (Num a) (Num b) = Num (min a b)"
  by (simp add: Math_min_def min_def)

text \<open>
  For integer \<open>page\<close> and \<open>limit\<close>, however far out of range: \<open>currentPage\<close> is
  \<open>max 1 page\<close>, \<open>pageSize\<close> is \<open>max 1 (min 100 limit)\<close> and lies in \<open>1..100\<close>, \<open>totalPages\<close>
  is the ceiling of \<open>totalCount / pageSize\<close>, \<open>hasNextPage\<close> is \<open>currentPage < totalPages\<close>
  and \<open>hasPreviousPage\<close> is \<open>currentPage > 1\<close>.
\<close>

lemma getAllUsers_pagination_numeric:
  assumes "page f = Some (Num p)" and "limit f = Some (Num l)"
  shows "\<exists>r. getAllUsers count findAll (Some f) = Paginated r
    \<and> currentPage (pagination r) = Num (max 1 p)
    \<and> pageSize (pagination r) = Num (max 1 (min 100 l))
    \<and> 1 \<le> max 1 (min 100 l) \<and> max 1 (min 100 l) \<le> 100
    \<and> totalPages (pagination r)
        = Num \<lceil>real_of_int (totalCount (pagination r)) / real_of_int (max 1 (min 100 l))\<rceil>
    \<and> hasNextPage (pagination r)
        = (max 1 p < \<lceil>real_of_int (totalCount (pagination r)) / real_of_int (max 1 (min 100 l))\<rceil>)
    \<and> hasPreviousPage (pagination r) = (1 < max 1 p)"
proof -
  have "max 1 (min 100 l) \<noteq> 0" by simp
  then show ?thesis
    using assms by (simp add: getAllUsers_def Let_def Math_max_Num Math_min_Num del: max_less_iff_conj)
qed

lemma getAllUsers_pagination_example:
  "\<exists>r. getAllUsers (\<lambda>_. 250) (\<lambda>_. []) (Some example_filters) = Paginated r
    \<and> currentPage (pagination r) = Num 1
    \<and> pageSize (pagination r) = Num 100
    \<and> totalPages (pagination r) = Num 3
    \<and> hasNextPage (pagination r)
    \<and> \<not> hasPreviousPage (pagination r)"
  by (simp add: getAllUsers_def Let_def example_filters_def Math_max_def Math_min_def)

text \<open>
  C10. The claim holds for every integer \<open>page\<close> and \<open>limit\<close>
  (\<open>getAllUsers_pagination_numeric\<close>), and the code's comments state it for every input
  (\<^verbatim>\<open>Ensure page is at least 1\<close>, \<^verbatim>\<open>Limit between 1-100\<close>). The code misses it for the
  \<open>NaN\<close> that the controller passes on for \<open>GET /users?page=1&limit=abc\<close>: the clamp
  \<open>Math.max(1, Math.min(100, NaN))\<close> is \<open>NaN\<close>, so the response has \<open>pageSize\<close> \<open>NaN\<close>,
  which is not within 1..100, and \<open>totalPages\<close> \<open>NaN\<close>, whatever the database holds.
\<close>

theorem getAllUsers_nan_limit:
  "\<exists>r. getAllUsers count findAll (Some nan_filters) = Paginated r
    \<and> currentPage (pagination r) = Num 1
    \<and> pageSize (pagination r) = NaN
    \<and> totalPages (pagination r) = NaN
    \<and> hasNextPage (pagination r) = False
    \<and> num_less (pageSize (pagination r)) (Num 1) = False
    \<and> num_less (Num 0) (pageSize (pagination r)) = False"
  by (simp add: getAllUsers_def Let_def nan_filters_def Math_max_def Math_min_def)

section \<open>Problem 6: results on the rate limiter\<close>

lemma rate_limit_open:
  assumes "lookup r (rate_key u) t = None"
  shows "rate_limit u t r =
           (Inr (), r(rate_key u \<mapsto> \<lparr>counter = 1, expireAt = Some (t + 60000)\<rparr>))"
  using assms by (simp add: rate_limit_def redis_incr_def redis_expire_def lookup_def)

lemma rate_limit_inside:
  assumes "r (rate_key u) = Some \<lparr>counter = n, expireAt = Some w\<rparr>"
    and "t \<le> w" and "1 \<le> n"
  shows "rate_limit u t r =
           (if n + 1 > 10 then Inl RateLimitExceeded else Inr (),
            r(rate_key u \<mapsto> \<lparr>counter = n + 1, expireAt = Some w\<rparr>))"
  using assms by (simp add: rate_limit_def redis_incr_def redis_expire_def lookup_def)

lemma rate_limit_all_inside:
  assumes "r (rate_key u) = Some \<lparr>counter = n, expireAt = Some w\<rparr>"
    and "\<forall>t \<in> set ts. t \<le> w" and "1 \<le> n"
  shows "fst (rate_limit_all u ts r)
           = map (\<lambda>i. if n + 1 + int i > 10 then Inl RateLimitExceeded else Inr ()) [0..<length ts]
       \<and> snd (rate_limit_all u ts r) (rate_key u)
           = Some \<lparr>counter = n + int (length ts), expireAt = Some w\<rparr>"
  using assms
proof (induction ts arbitrary: r n)
  case Nil
  then show ?case by simp
next
  case (Cons t ts)
  let ?r1 = "r(rate_key u \<mapsto> \<lparr>counter = n + 1, expireAt = Some w\<rparr>)"
  have step: "rate_limit u t r = (if n + 1 > 10 then Inl RateLimitExceeded else Inr (), ?r1)"
    using Cons.prems by (intro rate_limit_inside) auto
  have ih: "fst (rate_limit_all u ts ?r1)
           = map (\<lambda>i. if n + 1 + 1 + int i > 10 then Inl RateLimitExceeded else Inr ()) [0..<length ts]
       \<and> snd (rate_limit_all u ts ?r1) (rate_key u)
           = Some \<lparr>counter = n + 1 + int (length ts), expireAt = Some w\<rparr>"
    using Cons.prems by (intro Cons.IH) auto
  have shift: "[0..<Suc (length ts)] = 0 # map Suc [0..<length ts]"
    by (simp add: upt_conv_Cons map_Suc_upt del: upt_Suc)
  show ?case
    using ih by (simp add: step shift split_def Let_def comp_def algebra_simps del: upt_Suc)
qed

text \<open>
  C6. With 10 commands per 60-second window: when the command at \<open>t0\<close> opens a window
  (no live counter for the user), the first ten commands submitted before \<open>t0 + 60 s\<close> are
  let through and the eleventh, like every later one in the window, fails with
  \<open>RateLimitExceeded\<close>; a command submitted after \<open>t0 + 60 s\<close> is let through again.
\<close>

theorem rate_limit_window:
  assumes "lookup r (rate_key u) t0 = None"
    and "\<forall>t \<in> set ts. t < t0 + 60000"
    and "t0 + 60000 < t'"
  shows "(\<forall>i < Suc (length ts). fst (rate_limit_all u (t0 # ts) r) ! i
            = (if i < 10 then Inr () else Inl RateLimitExceeded))
       \<and> fst (rate_limit u t' (snd (rate_limit_all u (t0 # ts) r))) = Inr ()"
proof -
  let ?k = "rate_key u"
  let ?r1 = "r(?k \<mapsto> \<lparr>counter = 1, expireAt = Some (t0 + 60000)\<rparr>)"
  have first: "rate_limit u t0 r = (Inr (), ?r1)"
    by (rule rate_limit_open [OF assms(1)])
  have rest: "fst (rate_limit_all u ts ?r1)
           = map (\<lambda>i. if 1 + 1 + int i > 10 then Inl RateLimitExceeded else Inr ()) [0..<length ts]
       \<and> snd (rate_limit_all u ts ?r1) ?k
           = Some \<lparr>counter = 1 + int (length ts), expireAt = Some (t0 + 60000)\<rparr>"
    using assms(2) by (intro rate_limit_all_inside) auto
  have all: "rate_limit_all u (t0 # ts) r
      = (Inr () # fst (rate_limit_all u ts ?r1), snd (rate_limit_all u ts ?r1))"
    by (simp add: first split_def Let_def)
  have "fst (rate_limit_all u (t0 # ts) r) ! i = (if i < 10 then Inr () else Inl RateLimitExceeded)"
    if "i < Suc (length ts)" for i
  proof (cases i)
    case 0
    then show ?thesis by (simp add: all del: rate_limit_all.simps)
  next
    case (Suc j)
    with that have "j < length ts" by simp
    then show ?thesis using rest by (simp add: all Suc del: rate_limit_all.simps)
  qed
  moreover have "lookup (snd (rate_limit_all u (t0 # ts) r)) ?k t' = None"
    using rest assms(3) by (simp add: all lookup_def del: rate_limit_all.simps)
  then have "fst (rate_limit u t' (snd (rate_limit_all u (t0 # ts) r))) = Inr ()"
    by (simp add: rate_limit_open)
  ultimately show ?thesis by blast
qed

theorem rate_limit_window_witness:
  "fst (rate_limit_all ''alice'' [0, 1000, 2000, 3000, 4000, 5000, 6000, 7000, 8000, 9000, 59999] Map.empty) ! 9 = Inr ()
   \<and> fst (rate_limit_all ''alice'' [0, 1000, 2000, 3000, 4000, 5000, 6000, 7000, 8000, 9000, 59999] Map.empty) ! 10 = Inl RateLimitExceeded
   \<and> fst (rate_limit ''alice'' 60001
        (snd (rate_limit_all ''alice'' [0, 1000, 2000, 3000, 4000, 5000, 6000, 7000, 8000, 9000, 59999] Map.empty))) = Inr ()"
proof -
  have a: "lookup Map.empty (rate_key ''alice'') 0 = None"
    by (simp add: lookup_def)
  have b: "\<forall>t \<in> set [1000, 2000, 3000, 4000, 5000, 6000, 7000, 8000, 9000, 59999 :: int]. t < 0 + 60000"
    by simp
  have c: "(0::int) + 60000 < 60001" by simp
  note w = rate_limit_window [OF a b c]
  from w have "fst (rate_limit_all ''alice'' [0, 1000, 2000, 3000, 4000, 5000, 6000, 7000, 8000, 9000, 59999] Map.empty) ! 9 = Inr ()"
    by (elim conjE allE [of _ 9]) simp
  moreover from w have "fst (rate_limit_all ''alice'' [0, 1000, 2000, 3000, 4000, 5000, 6000, 7000, 8000, 9000, 59999] Map.empty) ! 10 = Inl RateLimitExceeded"
    by (elim conjE allE [of _ 10]) simp
  ultimately show ?thesis using w by blast
qed

section \<open>Results on the ranking order\<close>

lemma set_ranked: "set (ranked xs) = set xs"
  by (simp add: ranked_def)

lemma length_ranked: "length (ranked xs) = length xs"
  by (simp add: ranked_def)

lemma distinct_map_insort_key:
  "distinct (map g (insort_key f x xs)) = (g x \<notin> g ` set xs \<and> distinct (map g xs))"
  by (induction xs) (auto simp: set_insort_key)

lemma distinct_map_sort_key: "distinct (map g (sort_key f xs)) = distinct (map g xs)"
  by (induction xs) (simp_all add: distinct_map_insort_key)

lemma distinct_ranked: "distinct (map fst xs) \<Longrightarrow> distinct (map fst (ranked xs))"
  by (simp add: ranked_def distinct_map_sort_key)

lemma ranked_keys_sorted: "sorted (map (\<lambda>(u, s). (- s, u)) (ranked xs))"
  by (simp add: ranked_def)

lemma ranked_scores_decrease:
  assumes "i \<le> j" and "j < length xs"
  shows "snd (ranked xs ! j) \<le> snd (ranked xs ! i)"
proof -
  let ?key = "\<lambda>(u, s). (- s, u) :: int \<times> string"
  have "map ?key (ranked xs) ! i \<le> map ?key (ranked xs) ! j"
    using assms ranked_keys_sorted [of xs]
    by (intro sorted_nth_mono) (simp_all add: length_ranked)
  then have "?key (ranked xs ! i) \<le> ?key (ranked xs ! j)"
    using assms by (simp add: length_ranked)
  then show ?thesis
    by (auto simp: split_def less_eq_prod_def)
qed

lemma ranked_outranks:
  assumes "distinct (map fst xs)"
  shows "sorted_wrt outranks (ranked xs)"
proof -
  let ?key = "\<lambda>(u, s). (- s, u) :: int \<times> string"
  have d: "distinct (map fst (ranked xs))" by (rule distinct_ranked [OF assms])
  have "outranks (ranked xs ! i) (ranked xs ! j)" if "i < j" "j < length (ranked xs)" for i j
  proof -
    have "map ?key (ranked xs) ! i \<le> map ?key (ranked xs) ! j"
      using that ranked_keys_sorted [of xs] by (intro sorted_nth_mono) simp_all
    then have le: "?key (ranked xs ! i) \<le> ?key (ranked xs ! j)"
      using that by simp
    have ne: "fst (ranked xs ! i) \<noteq> fst (ranked xs ! j)"
      using that d by (auto simp: distinct_conv_nth)
    show ?thesis
      using le ne by (auto simp: outranks_def split_def less_eq_prod_def)
  qed
  then show ?thesis by (simp add: sorted_wrt_iff_nth_less)
qed

lemma below_boundary_not_top:
  assumes "distinct (map fst xs)" and "map_of xs u = Some s"
    and "boundary k xs = Some b" and "s < b"
  shows "u \<notin> fst ` set (take k (ranked xs))"
proof
  assume "u \<in> fst ` set (take k (ranked xs))"
  then obtain e where e: "e \<in> set (take k (ranked xs))" "fst e = u" by auto
  from assms(3) have k: "0 < k" "k \<le> length xs" and b: "b = snd (ranked xs ! (k - 1))"
    by (auto simp: boundary_def split: if_splits)
  from e(1) obtain i where i: "i < k" "i < length (ranked xs)" "e = ranked xs ! i"
    by (auto simp: in_set_conv_nth)
  have "e \<in> set xs" using e(1) set_ranked [of xs] by (auto dest: in_set_takeD)
  then have "(u, snd e) \<in> set xs" using e(2) by (metis prod.collapse)
  then have "map_of xs u = Some (snd e)" using assms(1) by simp
  then have "snd e = s" using assms(2) by simp
  moreover have "snd (ranked xs ! (k - 1)) \<le> snd (ranked xs ! i)"
    using i k by (intro ranked_scores_decrease) auto
  ultimately show False using assms(4) b i(3) by simp
qed

section \<open>Problem 6: results on the update logic\<close>

lemma distinct_updateUserScore:
  "distinct (map fst rows) \<Longrightarrow> distinct (map fst (updateUserScore u n rows))"
  by (simp add: updateUserScore_def distinct_update)

lemma map_of_updateUserScore:
  "map_of (updateUserScore u n rows) u = Some n"
  by (simp add: updateUserScore_def update_conv')

text \<open>
  C3. When the updated user's score is below the boundary score of the top 10 both before
  and after the update (Unranked to Unranked), \<open>updateScoreboard\<close> emits no
  \<open>scoreboard_updated\<close> event, the change event that carries the top-K to every observer:
  the published events are unchanged. What it appends to \<open>sent\<close> is only the
  \<open>user_rank_changed\<close> notice addressed to the updated user, which the README sends after
  every update and which is not a change event.
\<close>

theorem no_broadcast_below_boundary:
  assumes "distinct (map fst (db s))"
    and "map_of (db s) u = Some old"
    and "boundary 10 (db s) = Some b" and "old < b"
    and "boundary 10 (updateUserScore u new (db s)) = Some b'" and "new < b'"
  shows "sent (updateScoreboard (getTop10 (db s)) (getUserRank (db s) u) now u new s)
       = sent s @ [UserRankChanged u (getUserRank (db s) u)
                     (getUserRank (updateUserScore u new (db s)) u) new]
     \<and> published (sent (updateScoreboard (getTop10 (db s)) (getUserRank (db s) u) now u new s))
       = published (sent s)"
proof -
  have was: "\<not> list_ex (\<lambda>e. fst e = u) (getTop10 (db s))"
    using below_boundary_not_top [OF assms(1-4)]
    by (auto simp: getTop10_def list_ex_iff)
  have "\<not> list_ex (\<lambda>e. fst e = u) (getTop10 (updateUserScore u new (db s)))"
    using below_boundary_not_top [OF distinct_updateUserScore [OF assms(1)]
        map_of_updateUserScore assms(5,6)]
    by (auto simp: getTop10_def list_ex_iff)
  with was have "sent (updateScoreboard (getTop10 (db s)) (getUserRank (db s) u) now u new s)
       = sent s @ [UserRankChanged u (getUserRank (db s) u)
                     (getUserRank (updateUserScore u new (db s)) u) new]"
    by (simp add: updateScoreboard_def Let_def)
  moreover have "published (es @ [UserRankChanged u a c n]) = published es" for es a c n
    by (induction es rule: published.induct) simp_all
  ultimately show ?thesis by simp
qed

theorem no_broadcast_below_boundary_witness:
  "sent (updateScoreboard (getTop10 (db example_system)) (getUserRank (db example_system) ''u12'')
           1000 ''u12'' 15 example_system)
     = [UserRankChanged ''u12'' (Some 12) (Some 12) 15]
   \<and> published (sent (updateScoreboard (getTop10 (db example_system))
          (getUserRank (db example_system) ''u12'') 1000 ''u12'' 15 example_system)) = []"
proof -
  have h1: "distinct (map fst (db example_system))"
    by (simp add: example_system_def example_rows_def)
  have h2: "map_of (db example_system) ''u12'' = Some 10"
    by (simp add: example_system_def example_rows_def)
  have h3: "boundary 10 (db example_system) = Some 30"
    by (simp add: example_system_def example_rows_def boundary_def ranked_def)
  have h4: "(10::int) < 30" by simp
  have h5: "boundary 10 (updateUserScore ''u12'' 15 (db example_system)) = Some 30"
    by (simp add: example_system_def example_rows_def boundary_def ranked_def updateUserScore_def)
  have h6: "(15::int) < 30" by simp
  have r1: "getUserRank (db example_system) ''u12'' = Some 12"
    by (simp add: example_system_def example_rows_def getUserRank_def position_def ranked_def)
  have r2: "getUserRank (updateUserScore ''u12'' 15 (db example_system)) ''u12'' = Some 12"
    by (simp add: example_system_def example_rows_def getUserRank_def position_def ranked_def
        updateUserScore_def)
  have e: "sent example_system = []" by (simp add: example_system_def)
  show ?thesis
    using no_broadcast_below_boundary [OF h1 h2 h3 h4 h5 h6, of 1000] by (simp add: r1 r2 e)
qed

lemma published_append: "published (es @ fs) = published es @ published fs"
  by (induction es rule: published.induct) simp_all

lemma published_step:
  "published (sent (updateScoreboard p r now u n s))
     = published (sent s)
       @ (if list_ex (\<lambda>e. fst e = u) p \<or> list_ex (\<lambda>e. fst e = u) (getTop10 (updateUserScore u n (db s)))
          then [(getTop10 (updateUserScore u n (db s)), now)] else [])"
  by (simp add: updateScoreboard_def Let_def published_append)

lemma db_updateScoreboard: "db (updateScoreboard p r now u n s) = updateUserScore u n (db s)"
  by (simp add: updateScoreboard_def Let_def)

lemma stamps_sorted:
  assumes "sorted (map (\<lambda>x. snd (snd x)) ups)"
    and "sorted (map snd (published (sent s)))"
    and "\<forall>e \<in> set (published (sent s)). \<forall>x \<in> set ups. snd e \<le> snd (snd x)"
  shows "sorted (map snd (published (sent (updates ups s))))"
  using assms
proof (induction ups arbitrary: s)
  case Nil
  then show ?case by simp
next
  case (Cons x ups)
  obtain u n t where x: "x = (u, n, t)" by (cases x)
  let ?s1 = "updateScoreboard (getTop10 (db s)) (getUserRank (db s) u) t u n s"
  have tail: "sorted (map (\<lambda>x. snd (snd x)) ups)" and le: "\<forall>y \<in> set ups. t \<le> snd (snd y)"
    using Cons.prems(1) by (simp_all add: x)
  have set1: "set (published (sent ?s1)) \<subseteq> set (published (sent s)) \<union> {(getTop10 (db ?s1), t)}"
    by (auto simp: published_step db_updateScoreboard split: if_splits)
  have "sorted (map snd (published (sent ?s1)))"
    using Cons.prems(2,3) by (auto simp: published_step sorted_append x)
  moreover have "\<forall>e \<in> set (published (sent ?s1)). \<forall>y \<in> set ups. snd e \<le> snd (snd y)"
  proof (intro ballI)
    fix e y assume e: "e \<in> set (published (sent ?s1))" and y: "y \<in> set ups"
    from e set1 consider "e \<in> set (published (sent s))" | "snd e = t" by auto
    then show "snd e \<le> snd (snd y)"
    proof cases
      case 1
      then show ?thesis using Cons.prems(3) y by simp
    next
      case 2
      then show ?thesis using le y by simp
    qed
  qed
  ultimately have "sorted (map snd (published (sent (updates ups ?s1))))"
    using tail by (intro Cons.IH)
  then show ?case by (simp add: x)
qed

text \<open>
  C4 (as amended). Every \<open>scoreboard_updated\<close> event that \<open>updateScoreboard\<close> publishes
  carries the full top 10 of the database as it stands after the update, and the clock
  reading of its publication; the events carry no generation number. Over a run of updates
  whose clock readings do not decrease, the stamps of the published events do not decrease.
\<close>

theorem published_snapshot_and_stamp:
  "(\<exists>evs. published (sent (updateScoreboard p r now u n s)) = published (sent s) @ evs
         \<and> (evs = [] \<or> evs = [(getTop10 (db (updateScoreboard p r now u n s)), now)]))
   \<and> (sent s0 = [] \<and> sorted (map (\<lambda>x. snd (snd x)) ups)
        \<longrightarrow> sorted (map snd (published (sent (updates ups s0)))))"
proof (intro conjI impI)
  show "\<exists>evs. published (sent (updateScoreboard p r now u n s)) = published (sent s) @ evs
         \<and> (evs = [] \<or> evs = [(getTop10 (db (updateScoreboard p r now u n s)), now)])"
    by (simp add: published_step db_updateScoreboard)
next
  assume "sent s0 = [] \<and> sorted (map (\<lambda>x. snd (snd x)) ups)"
  then show "sorted (map snd (published (sent (updates ups s0))))"
    by (intro stamps_sorted) simp_all
qed

theorem published_snapshot_and_stamp_witness:
  "map snd (published (sent (updates [(''a'', 2, 1000), (''a'', 3, 2000)] small_system))) = [1000, 2000]
   \<and> sorted (map snd (published (sent (updates [(''a'', 2, 1000), (''a'', 3, 2000)] small_system))))"
proof -
  have "sent small_system = [] \<and> sorted (map (\<lambda>x. snd (snd x)) [(''a'', 2::int, 1000::int), (''a'', 3, 2000)])"
    by (simp add: small_system_def)
  then have "sorted (map snd (published (sent (updates [(''a'', 2, 1000), (''a'', 3, 2000)] small_system))))"
    using published_snapshot_and_stamp [of _ _ _ _ _ _ small_system "[(''a'', 2, 1000), (''a'', 3, 2000)]"]
    by blast
  moreover have "map snd (published (sent (updates [(''a'', 2, 1000), (''a'', 3, 2000)] small_system))) = [1000, 2000]"
    by (simp add: small_system_def updateScoreboard_def getTop10_def getUserRank_def position_def
        ranked_def updateUserScore_def Let_def)
  ultimately show ?thesis by simp
qed

text \<open>
  C4 as stated fails: two updates in the same clock tick publish two events with the same
  stamp, so the stamps are not strictly increasing.
\<close>

theorem published_generation_counterexample:
  "published (sent (updates [(''a'', 2, 1000), (''a'', 3, 1000)] small_system))
     = [([(''a'', 2)], 1000), ([(''a'', 3)], 1000)]
   \<and> \<not> sorted_wrt (<) (map snd (published (sent (updates [(''a'', 2, 1000), (''a'', 3, 1000)] small_system))))"
  by (simp add: small_system_def updateScoreboard_def getTop10_def getUserRank_def position_def
        ranked_def updateUserScore_def Let_def)

section \<open>Results on the idempotency guard and the ranking store\<close>

lemma applyDelta_rejected: "\<not> admit st c \<Longrightarrow> applyDelta c st = (RejectedDuplicate, st)"
  by (simp add: applyDelta_def)

lemma applyDelta_applied:
  "admit st c \<Longrightarrow> fst (applyDelta c st) \<noteq> RejectedDuplicate"
  by (simp add: applyDelta_def Let_def)

lemma applyDelta_keys:
  "fst ` set (snd (applyDelta c st)) = insert (participantId c) (fst ` set st)"
proof (cases "admit st c")
  case True
  then show ?thesis by (simp add: applyDelta_def Let_def dom_update)
next
  case False
  then have "map_of st (participantId c) \<noteq> None"
    by (auto simp: admit_def split: option.splits)
  then have "participantId c \<in> fst ` set st"
    by (simp add: map_of_eq_None_iff)
  with False show ?thesis by (auto simp: applyDelta_rejected)
qed

lemma applyDelta_distinct:
  "distinct (map fst st) \<Longrightarrow> distinct (map fst (snd (applyDelta c st)))"
  by (simp add: applyDelta_def Let_def distinct_update)

lemma run_Cons:
  "run (c # cs) st
     = (fst (applyDelta c st) # fst (run cs (snd (applyDelta c st))),
        snd (run cs (snd (applyDelta c st))))"
  by (simp add: split_def Let_def)

lemma run_keys: "fst ` set (snd (run cs st)) = fst ` set st \<union> participantId ` set cs"
proof (induction cs arbitrary: st)
  case Nil
  show ?case by simp
next
  case (Cons c cs)
  show ?case
    by (auto simp: run_Cons Cons.IH applyDelta_keys simp del: run.simps(2))
qed

lemma run_distinct: "distinct (map fst st) \<Longrightarrow> distinct (map fst (snd (run cs st)))"
proof (induction cs arbitrary: st)
  case Nil
  then show ?case by simp
next
  case (Cons c cs)
  then show ?case
    by (simp add: run_Cons applyDelta_distinct del: run.simps(2))
qed

lemma scores_keys: "map fst (scores st) = map fst st"
  by (simp add: scores_def split_def comp_def)

lemma map_of_scores: "map_of (scores st) p = map_option score (map_of st p)"
  by (induction st) (auto simp: scores_def)

text \<open>
  C1. After any finite sequence of commands applied to the empty store, and for every \<open>n\<close>
  at or above the number of participants, \<open>topK n\<close> lists exactly the participants, each
  once and with its current score, ordered by score descending and, for equal scores, by
  participant id ascending.
\<close>

theorem topK_all_participants:
  assumes "st = snd (run cs [])" and "card (participantId ` set cs) \<le> n"
  shows "fst ` set (topK n st) = participantId ` set cs
     \<and> length (topK n st) = card (participantId ` set cs)
     \<and> set (topK n st) = set (scores st)
     \<and> (\<forall>p \<in> participantId ` set cs. map_option score (map_of st p) = map_of (topK n st) p)
     \<and> sorted_wrt outranks (topK n st)"
proof -
  have d: "distinct (map fst st)" using assms(1) by (simp add: run_distinct)
  have keys: "fst ` set st = participantId ` set cs" using assms(1) by (simp add: run_keys)
  have "length st = card (fst ` set st)"
    using d by (metis distinct_card length_map set_map)
  then have len: "length st = card (participantId ` set cs)" by (simp add: keys)
  then have all: "topK n st = ranked (scores st)"
    using assms(2) by (simp add: topK_def length_ranked scores_def)
  have ds: "distinct (map fst (scores st))" using d by (simp add: scores_keys)
  have "fst ` set (topK n st) = participantId ` set cs"
    using keys scores_keys [of st] by (simp add: all set_ranked flip: set_map)
  moreover have "length (topK n st) = card (participantId ` set cs)"
    by (simp add: all length_ranked scores_def len)
  moreover have "set (topK n st) = set (scores st)"
    by (simp add: all set_ranked)
  moreover have "map_option score (map_of st p) = map_of (topK n st) p" for p
  proof -
    have "map_of (ranked (scores st)) = map_of (scores st)"
      using ds by (intro map_of_inject_set [THEN iffD2]) (simp_all add: distinct_ranked set_ranked)
    then show ?thesis by (simp add: all map_of_scores)
  qed
  moreover have "sorted_wrt outranks (topK n st)"
    by (simp add: all ranked_outranks [OF ds])
  ultimately show ?thesis by blast
qed

theorem topK_all_participants_witness:
  "topK 4 (snd (run example_commands [])) = [(''A'', 100), (''C'', 95), (''B'', 90), (''D'', 90)]
   \<and> fst ` set (topK 4 (snd (run example_commands []))) = {''A'', ''B'', ''C'', ''D''}
   \<and> sorted_wrt outranks (topK 4 (snd (run example_commands [])))"
proof -
  have ids: "participantId ` set example_commands = {''A'', ''B'', ''C'', ''D''}"
    by (auto simp: example_commands_def cmd_def)
  have n: "card (participantId ` set example_commands) \<le> 4"
    by (simp add: ids)
  have v: "topK 4 (snd (run example_commands [])) = [(''A'', 100), (''C'', 95), (''B'', 90), (''D'', 90)]"
    by (simp add: example_commands_def cmd_def applyDelta_def admit_def Let_def position_def
        ranked_def scores_def topK_def)
  note t = topK_all_participants [OF refl n]
  from t have "fst ` set (topK 4 (snd (run example_commands []))) = participantId ` set example_commands"
    by blast
  then have "fst ` set (topK 4 (snd (run example_commands []))) = {''A'', ''B'', ''C'', ''D''}"
    by (simp only: ids)
  moreover from t have "sorted_wrt outranks (topK 4 (snd (run example_commands [])))"
    by blast
  ultimately show ?thesis using v by blast
qed

lemma admit_iff_not_recorded: "admit st c = (\<not> recorded st (participantId c) (commandId c))"
  by (auto simp: admit_def recorded_def split: option.splits)

lemma recorded_after: "recorded (snd (applyDelta c st)) (participantId c) (commandId c)"
proof (cases "admit st c")
  case True
  then show ?thesis by (simp add: applyDelta_def Let_def recorded_def update_conv')
next
  case False
  then show ?thesis by (simp add: applyDelta_rejected admit_iff_not_recorded)
qed

lemma recorded_kept: "recorded st p k \<Longrightarrow> recorded (snd (applyDelta c st)) p k"
proof (cases "admit st c")
  case False
  assume "recorded st p k"
  with False show ?thesis by (simp add: applyDelta_rejected)
next
  case True
  assume r: "recorded st p k"
  show ?thesis
  proof (cases "participantId c = p")
    case False
    with r True show ?thesis
      by (simp add: applyDelta_def Let_def recorded_def update_conv')
  next
    case same: True
    from r same True have "k < commandId c"
      by (auto simp: recorded_def admit_def split: option.splits)
    with same True show ?thesis
      by (simp add: applyDelta_def Let_def recorded_def update_conv')
  qed
qed

lemma recorded_rejects:
  assumes "recorded st p k" and "j < length cs"
    and "participantId (cs ! j) = p" and "commandId (cs ! j) = k"
  shows "fst (run cs st) ! j = RejectedDuplicate"
  using assms
proof (induction cs arbitrary: st j)
  case Nil
  then show ?case by simp
next
  case (Cons c cs)
  show ?case
  proof (cases j)
    case 0
    with Cons.prems have "\<not> admit st c" by (simp add: admit_iff_not_recorded)
    then show ?thesis using 0 by (simp add: run_Cons applyDelta_rejected del: run.simps(2))
  next
    case (Suc i)
    have "fst (run cs (snd (applyDelta c st))) ! i = RejectedDuplicate"
      using Cons.prems Suc by (intro Cons.IH recorded_kept) simp_all
    then show ?thesis using Suc by (simp add: run_Cons del: run.simps(2))
  qed
qed

lemma later_occurrence_rejected:
  assumes "i < j" and "j < length cs"
    and "participantId (cs ! i) = participantId (cs ! j)"
    and "commandId (cs ! i) = commandId (cs ! j)"
  shows "fst (run cs st) ! j = RejectedDuplicate"
  using assms
proof (induction cs arbitrary: st i j)
  case Nil
  then show ?case by simp
next
  case (Cons c cs)
  from Cons.prems obtain j' where j: "j = Suc j'" by (cases j) auto
  have "fst (run cs (snd (applyDelta c st))) ! j' = RejectedDuplicate"
  proof (cases i)
    case 0
    with Cons.prems j have "participantId (cs ! j') = participantId c" "commandId (cs ! j') = commandId c"
      by simp_all
    then show ?thesis
      using Cons.prems(2) j by (intro recorded_rejects [OF recorded_after]) simp_all
  next
    case (Suc i')
    then show ?thesis using Cons.prems j by (intro Cons.IH [of i' j']) simp_all
  qed
  then show ?case using j by (simp add: run_Cons del: run.simps(2))
qed

lemma times_applied_Cons:
  "times_applied p k (c # cs) st
     = (if participantId c = p \<and> commandId c = k \<and> fst (applyDelta c st) \<noteq> RejectedDuplicate
        then 1 else 0)
       + times_applied p k cs (snd (applyDelta c st))"
  by (simp add: times_applied_def run_Cons del: run.simps(2))

lemma times_applied_recorded: "recorded st p k \<Longrightarrow> times_applied p k cs st = 0"
proof (induction cs arbitrary: st)
  case Nil
  show ?case by (simp add: times_applied_def)
next
  case (Cons c cs)
  have "participantId c = p \<and> commandId c = k \<longrightarrow> fst (applyDelta c st) = RejectedDuplicate"
    using Cons.prems by (auto simp: applyDelta_rejected admit_iff_not_recorded)
  moreover have "times_applied p k cs (snd (applyDelta c st)) = 0"
    using Cons.prems by (intro Cons.IH recorded_kept)
  ultimately show ?case by (auto simp: times_applied_Cons)
qed

lemma times_applied_le_1: "times_applied p k cs st \<le> 1"
proof (induction cs arbitrary: st)
  case Nil
  show ?case by (simp add: times_applied_def)
next
  case (Cons c cs)
  show ?case
  proof (cases "participantId c = p \<and> commandId c = k")
    case True
    then have "times_applied p k cs (snd (applyDelta c st)) = 0"
      using recorded_after [of c st] by (intro times_applied_recorded) auto
    then show ?thesis by (simp add: times_applied_Cons)
  next
    case False
    then show ?thesis using Cons.IH [of "snd (applyDelta c st)"] by (auto simp: times_applied_Cons)
  qed
qed

text \<open>
  C2 (as amended). A command is applied iff its sequence number is above the participant's
  stored one (always, for an unseen participant). In any run, every occurrence of a command
  id after the first one of the same participant is \<open>RejectedDuplicate\<close>, so a command id
  is applied at most once: once when its first occurrence is admitted, never when that
  occurrence is stale.
\<close>

theorem duplicate_command_rejected:
  "(fst (applyDelta c st) \<noteq> RejectedDuplicate
      \<longleftrightarrow> (case map_of st (participantId c) of None \<Rightarrow> True | Some r \<Rightarrow> lastSeq r < commandId c))
   \<and> (i < j \<and> j < length cs \<and> participantId (cs ! i) = participantId (cs ! j)
        \<and> commandId (cs ! i) = commandId (cs ! j)
      \<longrightarrow> fst (run cs st) ! j = RejectedDuplicate)
   \<and> times_applied p k cs st \<le> 1"
proof (intro conjI impI)
  show "fst (applyDelta c st) \<noteq> RejectedDuplicate
      \<longleftrightarrow> (case map_of st (participantId c) of None \<Rightarrow> True | Some r \<Rightarrow> lastSeq r < commandId c)"
  proof -
    have "fst (applyDelta c st) \<noteq> RejectedDuplicate \<longleftrightarrow> admit st c"
      by (cases "admit st c") (simp_all add: applyDelta_applied applyDelta_rejected)
    then show ?thesis by (simp add: admit_def)
  qed
  show "times_applied p k cs st \<le> 1" by (rule times_applied_le_1)
next
  assume "i < j \<and> j < length cs \<and> participantId (cs ! i) = participantId (cs ! j)
        \<and> commandId (cs ! i) = commandId (cs ! j)"
  then show "fst (run cs st) ! j = RejectedDuplicate"
    by (intro later_occurrence_rejected [of i j]) simp_all
qed

theorem duplicate_command_rejected_witness:
  "fst (run [cmd ''p'' 10 1, cmd ''p'' 10 1] []) ! 0 = Applied 10 1
   \<and> fst (run [cmd ''p'' 10 1, cmd ''p'' 10 1] []) ! 1 = RejectedDuplicate
   \<and> times_applied ''p'' 1 [cmd ''p'' 10 1, cmd ''p'' 10 1] [] = 1"
proof -
  have "fst (run [cmd ''p'' 10 1, cmd ''p'' 10 1] []) ! 1 = RejectedDuplicate"
    using duplicate_command_rejected [of _ _ 0 1 "[cmd ''p'' 10 1, cmd ''p'' 10 1]" "[]"]
    by simp
  moreover have "fst (run [cmd ''p'' 10 1, cmd ''p'' 10 1] []) ! 0 = Applied 10 1"
    by (simp add: cmd_def applyDelta_def admit_def Let_def position_def ranked_def scores_def)
  moreover have "times_applied ''p'' 1 [cmd ''p'' 10 1, cmd ''p'' 10 1] [] = 1"
    by (simp add: times_applied_def cmd_def applyDelta_def admit_def Let_def position_def
        ranked_def scores_def)
  ultimately show ?thesis by blast
qed

text \<open>
  C2 as stated fails: after command 5 of participant \<open>p\<close>, command 3 arrives twice and is
  rejected both times, so it is applied zero times, not once.
\<close>

theorem applied_exactly_once_counterexample:
  "fst (run [cmd ''p'' 5 5, cmd ''p'' 1 3, cmd ''p'' 1 3] [])
     = [Applied 5 1, RejectedDuplicate, RejectedDuplicate]
   \<and> times_applied ''p'' 3 [cmd ''p'' 5 5, cmd ''p'' 1 3, cmd ''p'' 1 3] [] = 0"
  by (simp add: times_applied_def cmd_def applyDelta_def admit_def Let_def position_def
        ranked_def scores_def)

lemma set_update_subset: "set (AList.update k v al) \<subseteq> insert (k, v) (set al)"
  by (induction al) auto

lemma applyDelta_nonneg:
  assumes "\<forall>(p, r) \<in> set st. 0 \<le> score r"
  shows "\<forall>(p, r) \<in> set (snd (applyDelta c st)). 0 \<le> score r"
proof (cases "admit st c")
  case False
  with assms show ?thesis by (simp add: applyDelta_rejected)
next
  case True
  let ?old = "case map_of st (participantId c) of None \<Rightarrow> 0 | Some p \<Rightarrow> score p"
  let ?new = "\<lparr>score = max 0 (?old + delta c), lastSeq = commandId c, updatedAt = submittedAt c\<rparr>"
  have "set (snd (applyDelta c st)) \<subseteq> insert (participantId c, ?new) (set st)"
    using True set_update_subset [of "participantId c" ?new st]
    by (simp add: applyDelta_def Let_def)
  moreover have "0 \<le> score ?new" by simp
  ultimately show ?thesis using assms by fastforce
qed

lemma run_nonneg:
  "\<forall>(p, r) \<in> set st. 0 \<le> score r \<Longrightarrow> \<forall>(p, r) \<in> set (snd (run cs st)). 0 \<le> score r"
proof (induction cs arbitrary: st)
  case Nil
  then show ?case by simp
next
  case (Cons c cs)
  have "\<forall>(p, r) \<in> set (snd (run cs (snd (applyDelta c st)))). 0 \<le> score r"
    using Cons.prems by (intro Cons.IH applyDelta_nonneg)
  then show ?case by (simp add: run_Cons del: run.simps(2))
qed

text \<open>
  C7. Every score in the store is non-negative: after any sequence of commands from the
  empty store, and after \<open>applyDelta\<close> on any store whose scores are non-negative. An
  admitted delta that would take the score below zero leaves the score at exactly zero.
\<close>

theorem score_never_negative:
  "(\<forall>(p, r) \<in> set (snd (run cs [])). 0 \<le> score r)
   \<and> ((\<forall>(p, r) \<in> set st. 0 \<le> score r) \<longrightarrow> (\<forall>(p, r) \<in> set (snd (applyDelta c st)). 0 \<le> score r))
   \<and> (admit st c
        \<and> (case map_of st (participantId c) of None \<Rightarrow> 0 | Some r \<Rightarrow> score r) + delta c < 0
      \<longrightarrow> (\<exists>k. fst (applyDelta c st) = Applied 0 k)
        \<and> map_option score (map_of (snd (applyDelta c st)) (participantId c)) = Some 0)"
proof (intro conjI impI)
  show "\<forall>(p, r) \<in> set (snd (run cs [])). 0 \<le> score r"
    by (rule run_nonneg) simp
next
  assume "\<forall>(p, r) \<in> set st. 0 \<le> score r"
  then show "\<forall>(p, r) \<in> set (snd (applyDelta c st)). 0 \<le> score r"
    by (rule applyDelta_nonneg)
next
  assume a: "admit st c
        \<and> (case map_of st (participantId c) of None \<Rightarrow> 0 | Some r \<Rightarrow> score r) + delta c < 0"
  then show "\<exists>k. fst (applyDelta c st) = Applied 0 k"
    by (simp add: applyDelta_def Let_def)
  from a show "map_option score (map_of (snd (applyDelta c st)) (participantId c)) = Some 0"
    by (simp add: applyDelta_def Let_def update_conv')
qed

theorem score_never_negative_witness:
  "fst (applyDelta (cmd ''D'' (- 200) 2) (snd (run example_commands []))) = Applied 0 4
   \<and> map_option score (map_of (snd (applyDelta (cmd ''D'' (- 200) 2) (snd (run example_commands [])))) ''D'')
       = Some 0
   \<and> list_all (\<lambda>(p, r). 0 \<le> score r)
        (snd (applyDelta (cmd ''D'' (- 200) 2) (snd (run example_commands []))))"
proof -
  let ?st = "snd (run example_commands [])"
  let ?c = "cmd ''D'' (- 200) 2"
  have st: "?st = [(''A'', \<lparr>score = 100, lastSeq = 1, updatedAt = 0\<rparr>),
                  (''B'', \<lparr>score = 90, lastSeq = 1, updatedAt = 0\<rparr>),
                  (''C'', \<lparr>score = 95, lastSeq = 2, updatedAt = 0\<rparr>),
                  (''D'', \<lparr>score = 90, lastSeq = 1, updatedAt = 0\<rparr>)]"
    by (simp add: example_commands_def cmd_def applyDelta_def admit_def Let_def)
  have pre: "admit ?st ?c
        \<and> (case map_of ?st (participantId ?c) of None \<Rightarrow> 0 | Some r \<Rightarrow> score r) + delta ?c < 0"
    by (simp add: st) (simp add: cmd_def admit_def)
  have inv: "\<forall>(p, r) \<in> set ?st. 0 \<le> score r"
    by (simp add: st)
  have rk: "fst (applyDelta ?c ?st) = Applied 0 4"
    by (simp add: st) (simp add: cmd_def applyDelta_def admit_def Let_def position_def
        ranked_def scores_def)
  note t = score_never_negative [of example_commands ?st ?c]
  from t pre have "map_option score (map_of (snd (applyDelta ?c ?st)) (participantId ?c)) = Some 0"
    by blast
  then have "map_option score (map_of (snd (applyDelta ?c ?st)) ''D'') = Some 0"
    by (simp add: cmd_def)
  moreover from t inv have "\<forall>(p, r) \<in> set (snd (applyDelta ?c ?st)). 0 \<le> score r"
    by blast
  then have "list_all (\<lambda>(p, r). 0 \<le> score r) (snd (applyDelta ?c ?st))"
    by (simp only: list_all_iff)
  ultimately show ?thesis using rk by blast
qed

section \<open>Results on the snapshot cache\<close>

text \<open>
  C5. \<open>get\<close> at time \<open>now\<close> returns the cached snapshot unchanged when there is one with
  \<open>now - createdAt < TTL\<close>; otherwise, and always after \<open>invalidate\<close>, it rebuilds from
  \<open>topK K\<close>, stamps the next generation, replaces the cache entry and returns the rebuilt
  snapshot. With a positive TTL the age of the snapshot served is always below the TTL.
\<close>

theorem get_fresh_or_rebuilt:
  "(cached c = Some s \<and> now - createdAt s < snapshotTTL cfg \<longrightarrow> get cfg st now c = (s, c))
   \<and> (\<not> (\<exists>s. cached c = Some s \<and> now - createdAt s < snapshotTTL cfg) \<longrightarrow>
        get cfg st now c
          = (\<lparr>entries = topK (topKSize cfg) st, generation = Suc (lastGeneration c), createdAt = now\<rparr>,
             \<lparr>cached = Some \<lparr>entries = topK (topKSize cfg) st, generation = Suc (lastGeneration c),
                             createdAt = now\<rparr>,
              lastGeneration = Suc (lastGeneration c)\<rparr>))
   \<and> get cfg st now (invalidate c)
        = (\<lparr>entries = topK (topKSize cfg) st, generation = Suc (lastGeneration c), createdAt = now\<rparr>,
           \<lparr>cached = Some \<lparr>entries = topK (topKSize cfg) st, generation = Suc (lastGeneration c),
                           createdAt = now\<rparr>,
            lastGeneration = Suc (lastGeneration c)\<rparr>)
   \<and> (0 < snapshotTTL cfg \<longrightarrow> now - createdAt (fst (get cfg st now c)) < snapshotTTL cfg)"
  by (auto simp: get_def rebuild_def invalidate_def Let_def split: option.splits)

theorem get_fresh_or_rebuilt_witness:
  "get example_config (snd (run example_commands [])) 104 example_cache
     = (\<lparr>entries = [(''A'', 100), (''B'', 90)], generation = 7, createdAt = 100\<rparr>, example_cache)
   \<and> fst (get example_config (snd (run example_commands [])) 105 example_cache)
     = \<lparr>entries = [(''A'', 100), (''C'', 95)], generation = 8, createdAt = 105\<rparr>
   \<and> 105 - createdAt (fst (get example_config (snd (run example_commands [])) 105 example_cache)) < 5"
proof -
  let ?st = "snd (run example_commands [])"
  let ?s = "\<lparr>entries = [(''A'', 100), (''B'', 90)], generation = 7, createdAt = 100\<rparr>"
  have hit: "cached example_cache = Some ?s \<and> 104 - createdAt ?s < snapshotTTL example_config"
    by (simp add: example_cache_def example_config_def)
  have miss: "\<not> (\<exists>s. cached example_cache = Some s \<and> 105 - createdAt s < snapshotTTL example_config)"
    by (simp add: example_cache_def example_config_def)
  have ttl: "0 < snapshotTTL example_config" by (simp add: example_config_def)
  have top: "topK (topKSize example_config) ?st = [(''A'', 100), (''C'', 95)]"
    by (simp add: example_config_def example_commands_def cmd_def applyDelta_def admit_def Let_def
        position_def ranked_def scores_def topK_def)
  have "get example_config ?st 104 example_cache = (?s, example_cache)"
    using get_fresh_or_rebuilt [of example_cache ?s 104 example_config ?st] hit by blast
  moreover have "fst (get example_config ?st 105 example_cache)
     = \<lparr>entries = [(''A'', 100), (''C'', 95)], generation = 8, createdAt = 105\<rparr>"
    using get_fresh_or_rebuilt [of example_cache _ 105 example_config ?st] miss top
    by (simp add: example_cache_def)
  moreover have "105 - createdAt (fst (get example_config ?st 105 example_cache)) < 5"
    using get_fresh_or_rebuilt [of example_cache _ 105 example_config ?st] ttl
    by (simp add: example_config_def)
  ultimately show ?thesis by blast
qed

end
